theory Spec2Isabelle
  imports Complex_Main "HOL-Library.AList"
begin

section \<open>JavaScript strings\<close>

text \<open>
  A JavaScript string is a sequence of UTF-16 code units. The regular expressions of
  the frontend carry no \<open>u\<close> flag, so they, \<open>split\<close>, \<open>trim\<close> and \<open>startsWith\<close> all
  work on code units; a string is modelled as the list of its code-unit values.
  \<open>js\<close> turns an Isabelle literal into such a list (for ASCII text).
\<close>

type_synonym jsstring = "nat list"

definition js :: "string \<Rightarrow> jsstring" where
  "js s = map of_char s"

text \<open>
  \<open>WhiteSpace\<close> and \<open>LineTerminator\<close> of ECMAScript: the code units that \<open>\s\<close>
  matches and that \<open>String.prototype.trim\<close> strips.
\<close>

definition is_space :: "nat \<Rightarrow> bool" where
  "is_space c \<longleftrightarrow>
     c = 9 \<or> c = 10 \<or> c = 11 \<or> c = 12 \<or> c = 13 \<or> c = 32 \<or> c = 160 \<or> c = 5760 \<or>
     (8192 \<le> c \<and> c \<le> 8202) \<or> c = 8232 \<or> c = 8233 \<or> c = 8239 \<or> c = 8287 \<or>
     c = 12288 \<or> c = 65279"

text \<open>\<open>\d\<close> matches the ASCII digits only.\<close>

definition is_digit :: "nat \<Rightarrow> bool" where
  "is_digit c \<longleftrightarrow> 48 \<le> c \<and> c \<le> 57"

text \<open>
  \<open>.\<close> (without the \<open>s\<close> flag) matches every code unit except the four line
  terminators LF, CR, U+2028 and U+2029.
\<close>

definition is_line_terminator :: "nat \<Rightarrow> bool" where
  "is_line_terminator c \<longleftrightarrow> c = 10 \<or> c = 13 \<or> c = 8232 \<or> c = 8233"

definition trim :: "jsstring \<Rightarrow> jsstring" where
  "trim s = rev (dropWhile is_space (rev (dropWhile is_space s)))"

definition startsWith :: "jsstring \<Rightarrow> jsstring \<Rightarrow> bool" where
  "startsWith s p \<longleftrightarrow> take (length p) s = p"

text \<open>
  \<open>markdown.split('\n')\<close>: the pieces between line feeds; the result always has at
  least one element (the last equation's second branch is never taken).
\<close>

fun split_nl :: "jsstring \<Rightarrow> jsstring list" where
  "split_nl [] = [[]]"
| "split_nl (c # cs) =
     (if c = 10 then [] # split_nl cs
      else (case split_nl cs of l # ls \<Rightarrow> (c # l) # ls | [] \<Rightarrow> [[c]]))"

text \<open>
  \<open>parseInt(d, 10)\<close> on a string of ASCII digits, as an exact natural number (the
  rounding of very long digit strings to a double is not modelled).
\<close>

definition parseInt :: "jsstring \<Rightarrow> nat" where
  "parseInt d = foldl (\<lambda>a c. 10 * a + (c - 48)) 0 d"


section \<open>The regular expressions of the frontend\<close>

text \<open>
  The frontend's patterns are sequences of single-character atoms, each possibly
  quantified, with non-nested capture groups. \<open>rx\<close> is the backtracking matcher of
  ECMAScript specialised to such sequences: a greedy quantifier first tries to take one more
  character and falls back to the rest of the pattern, a lazy one tries the rest of the
  pattern first. \<open>rx re s g caps\<close> matches \<open>re\<close> at the start of \<open>s\<close>; \<open>g\<close> is the input
  as it was when the open group started, \<open>caps\<close> the groups closed so far.
\<close>

datatype cclass = Space | Digit | Dot | NotBacktick | Lit nat

fun in_class :: "cclass \<Rightarrow> nat \<Rightarrow> bool" where
  "in_class Space c = is_space c"
| "in_class Digit c = is_digit c"
| "in_class Dot c = (\<not> is_line_terminator c)"
| "in_class NotBacktick c = (c \<noteq> 96)"
| "in_class (Lit k) c = (c = k)"

datatype item =
    One cclass
  | Opt cclass
  | Star cclass
  | Plus cclass
  | StarLazy cclass
  | PlusLazy cclass
  | GOpen
  | GClose
  | Eol

fun rx :: "item list \<Rightarrow> jsstring \<Rightarrow> jsstring \<Rightarrow> jsstring list \<Rightarrow> jsstring list option" where
  "rx [] s g caps = Some caps"
| "rx (One c # r) s g caps =
     (case s of [] \<Rightarrow> None
      | x # xs \<Rightarrow> if in_class c x then rx r xs g caps else None)"
| "rx (Opt c # r) s g caps =
     (case s of [] \<Rightarrow> rx r s g caps
      | x # xs \<Rightarrow>
          if in_class c x
          then (case rx r xs g caps of Some m \<Rightarrow> Some m | None \<Rightarrow> rx r s g caps)
          else rx r s g caps)"
| "rx (Star c # r) s g caps =
     (case s of [] \<Rightarrow> rx r s g caps
      | x # xs \<Rightarrow>
          if in_class c x
          then (case rx (Star c # r) xs g caps of Some m \<Rightarrow> Some m | None \<Rightarrow> rx r s g caps)
          else rx r s g caps)"
| "rx (Plus c # r) s g caps =
     (case s of [] \<Rightarrow> None
      | x # xs \<Rightarrow> if in_class c x then rx (Star c # r) xs g caps else None)"
| "rx (StarLazy c # r) s g caps =
     (case rx r s g caps of Some m \<Rightarrow> Some m
      | None \<Rightarrow>
          (case s of [] \<Rightarrow> None
           | x # xs \<Rightarrow> if in_class c x then rx (StarLazy c # r) xs g caps else None))"
| "rx (PlusLazy c # r) s g caps =
     (case s of [] \<Rightarrow> None
      | x # xs \<Rightarrow> if in_class c x then rx (StarLazy c # r) xs g caps else None)"
| "rx (GOpen # r) s g caps = rx r s s caps"
| "rx (GClose # r) s g caps = rx r s g (caps @ [take (length g - length s) g])"
| "rx (Eol # r) s g caps = (if s = [] then rx r s g caps else None)"

text \<open>A pattern that starts with \<open>^\<close> (no \<open>m\<close> flag) can only match at index 0.\<close>

definition rx_anchored :: "item list \<Rightarrow> jsstring \<Rightarrow> jsstring list option" where
  "rx_anchored re s = rx re s [] []"

text \<open>
  \<open>String.prototype.match\<close> and \<open>RegExp.prototype.test\<close> for a pattern without the
  \<open>g\<close> flag: the match at the leftmost index that has one, the end of input included.
\<close>

fun rx_search :: "item list \<Rightarrow> jsstring \<Rightarrow> jsstring list option" where
  "rx_search re [] = rx re [] [] []"
| "rx_search re (x # xs) =
     (case rx re (x # xs) [] [] of Some m \<Rightarrow> Some m | None \<Rightarrow> rx_search re xs)"

definition lits :: "string \<Rightarrow> item list" where
  "lits s = map (\<lambda>c. One (Lit (of_char c))) s"

text \<open>\<^verbatim>\<open>###\s+(.+?)\s+\(\d+\s+results?\)\<close> (with and without the leading \<open>^\<close>).\<close>

definition header_re :: "item list" where
  "header_re =
     lits ''###'' @ [Plus Space, GOpen, PlusLazy Dot, GClose, Plus Space] @ lits ''('' @
     [Plus Digit, Plus Space] @ lits ''result'' @ [Opt (Lit 115)] @ lits '')''"

text \<open>\<^verbatim>\<open>^\s*-\s*>\s*Parent:\s*`([^`]+)`\s*(.+)$\<close>\<close>

definition parent_re :: "item list" where
  "parent_re =
     [Star Space] @ lits ''-'' @ [Star Space] @ lits ''>'' @ [Star Space] @ lits ''Parent:'' @
     [Star Space, One (Lit 96), GOpen, Plus NotBacktick, GClose, One (Lit 96), Star Space,
      GOpen, Plus Dot, GClose, Eol]"

text \<open>\<^verbatim>\<open>`([^`]+)`\<close>\<close>

definition code_re :: "item list" where
  "code_re = [One (Lit 96), GOpen, Plus NotBacktick, GClose, One (Lit 96)]"

text \<open>\<^verbatim>\<open>\*\*(.+?)\*\*\<close>\<close>

definition display_re :: "item list" where
  "display_re = lits ''**'' @ [GOpen, PlusLazy Dot, GClose] @ lits ''**''"

text \<open>\<^verbatim>\<open>(\d+)%\<close>\<close>

definition pct_re :: "item list" where
  "pct_re = [GOpen, Plus Digit, GClose] @ lits ''%''"


section \<open>parseCodeResults and hasCodeResults (CodeResultCard.tsx)\<close>

text \<open>
  The \<open>BundleItem\<close> of types/index.ts; a \<open>CodeResult\<close> has the same three fields and
  more. \<open>parseCodeResults\<close> never sets \<open>metadata\<close>, which is left out.
\<close>

record BundleItem =
  system :: jsstring
  code :: jsstring
  display :: jsstring

record CodeResult = BundleItem +
  confidence :: real
  parentCode :: "jsstring option"
  parentDisplay :: "jsstring option"

text \<open>
  The results of the five \<open>line.match\<close> calls: the capture groups of a successful
  match. Every pattern closes a fixed number of groups, so the last branch of each
  \<open>case\<close> is never taken.
\<close>

definition systemMatch :: "jsstring \<Rightarrow> jsstring option" where
  "systemMatch line = (case rx_anchored header_re line of Some [n] \<Rightarrow> Some n | _ \<Rightarrow> None)"

definition parentMatch :: "jsstring \<Rightarrow> (jsstring \<times> jsstring) option" where
  "parentMatch line = (case rx_anchored parent_re line of Some [c, d] \<Rightarrow> Some (c, d) | _ \<Rightarrow> None)"

definition codeMatch :: "jsstring \<Rightarrow> jsstring option" where
  "codeMatch line = (case rx_search code_re line of Some [c] \<Rightarrow> Some c | _ \<Rightarrow> None)"

definition displayMatch :: "jsstring \<Rightarrow> jsstring option" where
  "displayMatch line = (case rx_search display_re line of Some [d] \<Rightarrow> Some d | _ \<Rightarrow> None)"

definition pctMatch :: "jsstring \<Rightarrow> jsstring option" where
  "pctMatch line = (case rx_search pct_re line of Some [p] \<Rightarrow> Some p | _ \<Rightarrow> None)"

text \<open>
  The local variables of the loop. \<open>systems\<close> is the \<open>Map\<close>, in insertion order
  (\<open>Map.set\<close> on a key that is present replaces the value in place). \<open>lastResult\<close>
  is a reference to the object pushed last, which is the last element of the array of
  \<open>currentSystem\<close>: an assignment through it changes that element.
\<close>

record pstate =
  systems :: "(jsstring \<times> CodeResult list) list"
  currentSystem :: jsstring
  summary :: jsstring
  inResults :: bool
  lastResult :: "CodeResult option"

definition init_pstate :: pstate where
  "init_pstate =
     \<lparr>systems = [], currentSystem = [], summary = [], inResults = False, lastResult = None\<rparr>"

definition set_last :: "CodeResult \<Rightarrow> CodeResult list \<Rightarrow> CodeResult list" where
  "set_last r rs = (if rs = [] then [] else butlast rs @ [r])"

definition confidence_of :: "jsstring \<Rightarrow> real" where
  "confidence_of line =
     (case pctMatch line of Some p \<Rightarrow> real (parseInt p) / 100 | None \<Rightarrow> 1 / 2)"

definition summary_step :: "pstate \<Rightarrow> jsstring \<Rightarrow> pstate" where
  "summary_step st line =
     (if \<not> inResults st \<and> trim line \<noteq> [] \<and> \<not> startsWith line (js ''---'') \<and>
         \<not> startsWith line (js ''*Searched:'')
      then st\<lparr>summary := summary st @ (if summary st \<noteq> [] then [10] else []) @ line\<rparr>
      else st)"

definition result_step :: "pstate \<Rightarrow> jsstring \<Rightarrow> pstate" where
  "result_step st line =
     (if currentSystem st \<noteq> [] \<and> map_of (systems st) (currentSystem st) \<noteq> None \<and>
         startsWith (trim line) (js ''-'')
      then (case (codeMatch line, displayMatch line) of
              (Some c, Some d) \<Rightarrow>
                (let result = \<lparr>system = currentSystem st, code = c, display = d,
                                confidence = confidence_of line,
                                parentCode = None, parentDisplay = None\<rparr>
                 in st\<lparr>systems := AList.map_entry (currentSystem st) (\<lambda>rs. rs @ [result])
                                     (systems st),
                       lastResult := Some result\<rparr>)
            | _ \<Rightarrow> summary_step st line)
      else summary_step st line)"

text \<open>One iteration of the \<open>for\<close> loop over the lines.\<close>

definition line_step :: "pstate \<Rightarrow> jsstring \<Rightarrow> pstate" where
  "line_step st line =
     (case systemMatch line of
        Some n \<Rightarrow>
          st\<lparr>currentSystem := n, systems := AList.update n [] (systems st),
             inResults := True, lastResult := None\<rparr>
      | None \<Rightarrow>
          (case (parentMatch line, lastResult st) of
             (Some (pc, pd), Some lr) \<Rightarrow>
               (let lr' = lr\<lparr>parentCode := Some pc, parentDisplay := Some (trim pd)\<rparr>
                in st\<lparr>systems := AList.map_entry (currentSystem st) (set_last lr') (systems st),
                      lastResult := Some lr'\<rparr>)
           | _ \<Rightarrow> result_step st line))"

definition parse_lines :: "jsstring list \<Rightarrow> pstate" where
  "parse_lines ls = foldl line_step init_pstate ls"

definition parseCodeResults :: "jsstring \<Rightarrow> jsstring \<times> (jsstring \<times> CodeResult list) list" where
  "parseCodeResults markdown =
     (let st = parse_lines (split_nl markdown) in (summary st, systems st))"

definition hasCodeResults :: "jsstring \<Rightarrow> bool" where
  "hasCodeResults content \<longleftrightarrow> rx_search header_re content \<noteq> None"


section \<open>handleSubmit (InputArea.tsx)\<close>

text \<open>The object handed to \<open>sendMessage\<close>.\<close>

record UserMessage =
  msg_name :: jsstring
  msg_type :: jsstring
  msg_output :: jsstring

text \<open>
  \<open>handleSubmit\<close> reads the component's \<open>input\<close> state and the \<open>loading\<close> flag of the
  chat client. It returns the new \<open>input\<close> state and the messages passed to
  \<open>sendMessage\<close>, the only interaction with the backend. The empty string is falsy, so
  \<open>!input.trim()\<close> holds exactly when the trimmed input is empty.
\<close>

definition handleSubmit :: "jsstring \<Rightarrow> bool \<Rightarrow> jsstring \<times> UserMessage list" where
  "handleSubmit input loading =
     (if trim input = [] \<or> loading then (input, [])
      else ([], [\<lparr>msg_name = js ''User'', msg_type = js ''user_message'',
                    msg_output = trim input\<rparr>]))"

text \<open>
  Modelled from the spec: the answer of the caller-facing contract \<open>runSearch\<close>
  (section 6), a summary and a result list, together with the number of backend calls
  made to produce it.
\<close>

record 'r SearchAnswer =
  answer_summary :: jsstring
  answer_results :: "'r list"
  backend_calls :: nat

text \<open>
  Modelled from the spec: the orchestrator entry point \<open>runSearch\<close> is not among the
  sources (only the frontend that calls the backend is). Sections 7 and 8 of the
  specification: an empty query is rejected before CLASSIFY with an explicit
  "no query provided" result, zero backend calls made, the result list empty and the
  summary equal to the fixed message. The fixed message and the pipeline run on a
  non-empty query are parameters.
\<close>

definition runSearch :: "jsstring \<Rightarrow> (jsstring \<Rightarrow> 'r SearchAnswer) \<Rightarrow> jsstring \<Rightarrow> 'r SearchAnswer" where
  "runSearch no_query_provided pipeline query =
     (if query = []
      then \<lparr>answer_summary = no_query_provided, answer_results = [], backend_calls = 0\<rparr>
      else pipeline query)"


section \<open>compute_confidence (PRD, FR-6)\<close>

text \<open>
  The \<open>result\<close> dictionary, with the three keys that \<open>compute_confidence\<close> reads.
  Python strings are sequences of code points and \<open>len\<close> counts them. \<open>rank\<close> is the
  position of the result in the backend's answer, a natural number; the key may be
  absent (\<open>result.get("rank", 0)\<close>). Arithmetic is over the reals: the rounding of
  Python's floats is not modelled.
\<close>

type_synonym pystr = "nat list"

record result =
  result_code :: pystr
  result_display :: pystr
  result_rank :: "nat option"

definition get_rank :: "result \<Rightarrow> nat" where
  "get_rank r = (case result_rank r of Some k \<Rightarrow> k | None \<Rightarrow> 0)"

text \<open>
  The list of (score, weight) pairs. \<open>jaccard_similarity\<close> and \<open>embedding_similarity\<close>
  are not among the sources and are parameters.
\<close>

definition scores ::
  "(pystr \<Rightarrow> pystr \<Rightarrow> real) \<Rightarrow> (pystr \<Rightarrow> pystr \<Rightarrow> real) \<Rightarrow> pystr \<Rightarrow> result \<Rightarrow> (real \<times> real) list" where
  "scores jaccard_similarity embedding_similarity query r =
     [(jaccard_similarity query (result_display r), 0.30),
      (1.0 / (1 + real (get_rank r) * 0.1), 0.20),
      (min (real (length (result_code r)) / 10) 1.0, 0.20),
      (embedding_similarity query (result_display r), 0.30)]"

text \<open>\<open>sum(score * weight for score, weight in scores)\<close>: a left fold from 0.\<close>

definition compute_confidence ::
  "(pystr \<Rightarrow> pystr \<Rightarrow> real) \<Rightarrow> (pystr \<Rightarrow> pystr \<Rightarrow> real) \<Rightarrow> pystr \<Rightarrow> result \<Rightarrow> real" where
  "compute_confidence jaccard_similarity embedding_similarity query r =
     foldl (\<lambda>acc (score, weight). acc + score * weight) 0
       (scores jaccard_similarity embedding_similarity query r)"

text \<open>The scoring formula in the words of the specification (section 4.4).\<close>

definition rank_decay :: "nat \<Rightarrow> real" where
  "rank_decay rank = 1 / (1 + real rank * 0.1)"

definition code_specificity :: "pystr \<Rightarrow> real" where
  "code_specificity c = real (length c) / 10"

definition spec_score :: "real \<Rightarrow> nat \<Rightarrow> pystr \<Rightarrow> real \<Rightarrow> real" where
  "spec_score lexical_overlap rank c semantic_similarity =
     0.30 * lexical_overlap + 0.20 * rank_decay rank + 0.20 * min (code_specificity c) 1.0 +
     0.30 * semantic_similarity"


section \<open>The bundle store (bundleStore.ts)\<close>

record BundleState =
  items :: "BundleItem list"
  isOpen :: bool

definition init_bundle :: BundleState where
  "init_bundle = \<lparr>items = [], isOpen = False\<rparr>"

definition same_key :: "jsstring \<Rightarrow> jsstring \<Rightarrow> BundleItem \<Rightarrow> bool" where
  "same_key c s i \<longleftrightarrow> code i = c \<and> system i = s"

definition addItem :: "BundleItem \<Rightarrow> BundleState \<Rightarrow> BundleState" where
  "addItem item st =
     (if list_ex (same_key (code item) (system item)) (items st) then st
      else st\<lparr>items := items st @ [item], isOpen := True\<rparr>)"

definition removeItem :: "jsstring \<Rightarrow> jsstring \<Rightarrow> BundleState \<Rightarrow> BundleState" where
  "removeItem c s st = st\<lparr>items := filter (\<lambda>i. \<not> same_key c s i) (items st)\<rparr>"

definition clear :: "BundleState \<Rightarrow> BundleState" where
  "clear st = st\<lparr>items := [], isOpen := False\<rparr>"

definition hasItem :: "jsstring \<Rightarrow> jsstring \<Rightarrow> BundleState \<Rightarrow> bool" where
  "hasItem c s st \<longleftrightarrow> list_ex (same_key c s) (items st)"

definition toggleOpen :: "BundleState \<Rightarrow> BundleState" where
  "toggleOpen st = st\<lparr>isOpen := \<not> isOpen st\<rparr>"

definition setOpen :: "bool \<Rightarrow> BundleState \<Rightarrow> BundleState" where
  "setOpen b st = st\<lparr>isOpen := b\<rparr>"

text \<open>The actions of the store, and a run of the store from its initial state.\<close>

datatype bundle_action =
    AddItem BundleItem
  | RemoveItem jsstring jsstring
  | Clear
  | ToggleOpen
  | SetOpen bool

fun bundle_step :: "BundleState \<Rightarrow> bundle_action \<Rightarrow> BundleState" where
  "bundle_step st (AddItem i) = addItem i st"
| "bundle_step st (RemoveItem c s) = removeItem c s st"
| "bundle_step st Clear = clear st"
| "bundle_step st ToggleOpen = toggleOpen st"
| "bundle_step st (SetOpen b) = setOpen b st"

definition bundle_run :: "bundle_action list \<Rightarrow> BundleState" where
  "bundle_run acts = foldl bundle_step init_bundle acts"

definition unique_items :: "BundleState \<Rightarrow> bool" where
  "unique_items st \<longleftrightarrow> distinct (map (\<lambda>i. (code i, system i)) (items st))"


section \<open>The chat history store (chatHistoryStore.ts)\<close>

record ChatMessage =
  message_id :: jsstring
  role :: jsstring
  content :: jsstring
  timestamp :: jsstring

record ChatThread =
  thread_id :: jsstring
  name :: jsstring
  createdAt :: jsstring
  updatedAt :: jsstring
  messages :: "ChatMessage list"

text \<open>\<open>null\<close> is \<open>None\<close>. \<open>historyOpen\<close> is the field \<open>isOpen\<close> of this store.\<close>

record ChatHistoryState =
  threads :: "ChatThread list"
  currentThreadId :: "jsstring option"
  liveThreadId :: "jsstring option"
  historyOpen :: bool

definition init_history :: ChatHistoryState where
  "init_history =
     \<lparr>threads = [], currentThreadId = None, liveThreadId = None, historyOpen = False\<rparr>"

text \<open>
  \<open>createThread\<close>: the identifier from \<open>generateId()\<close> and the time from
  \<open>new Date().toISOString()\<close> come from the environment and are arguments.
\<close>

definition createThread :: "jsstring \<Rightarrow> jsstring \<Rightarrow> ChatHistoryState \<Rightarrow> ChatHistoryState" where
  "createThread i now st =
     (let newThread = \<lparr>thread_id = i, name = js ''New conversation'', createdAt = now,
                        updatedAt = now, messages = []\<rparr>
      in st\<lparr>threads := newThread # threads st, currentThreadId := Some i,
            liveThreadId := Some i\<rparr>)"

text \<open>\<open>a || b\<close> on an identifier or \<open>null\<close>: \<open>null\<close> and the empty string are falsy.\<close>

definition or_else :: "jsstring option \<Rightarrow> jsstring option \<Rightarrow> jsstring option" where
  "or_else a b = (if a = None \<or> a = Some [] then b else a)"

definition deleteThread :: "jsstring \<Rightarrow> ChatHistoryState \<Rightarrow> ChatHistoryState" where
  "deleteThread i st =
     (let filtered = filter (\<lambda>t. thread_id t \<noteq> i) (threads st)
      in if Some i = liveThreadId st then st
         else
           (let newCurrentId =
                  (if currentThreadId st = Some i
                   then or_else (liveThreadId st)
                          (case filtered of t # _ \<Rightarrow> Some (thread_id t) | [] \<Rightarrow> None)
                   else currentThreadId st)
            in st\<lparr>threads := filtered, currentThreadId := newCurrentId\<rparr>))"

datatype history_action = CreateThread jsstring jsstring | DeleteThread jsstring

fun history_step :: "ChatHistoryState \<Rightarrow> history_action \<Rightarrow> ChatHistoryState" where
  "history_step st (CreateThread i now) = createThread i now st"
| "history_step st (DeleteThread i) = deleteThread i st"

definition history_run :: "history_action list \<Rightarrow> ChatHistoryState" where
  "history_run acts = foldl history_step init_history acts"

definition live_exists :: "ChatHistoryState \<Rightarrow> bool" where
  "live_exists st \<longleftrightarrow> list_ex (\<lambda>t. Some (thread_id t) = liveThreadId st) (threads st)"


section \<open>The budgets of the orchestrator (specification, sections 4.2, 4.3, 4.5, 4.7)\<close>

text \<open>
  The orchestrator is not among the sources, which only state its stop conditions (PRD
  FR-4 and the README: at most 3 iterations and 12 API calls per run). Its loop is
  modelled from the specification. Section 4.7: the orchestrator sequences CLASSIFY, PLAN,
  EXECUTE, REFLECT, then loops to PLAN or goes on to CONSOLIDATE and SUMMARIZE, and enforces
  the iteration and call caps as hard limits, independently of the reflector. Section 4.2:
  the planner never plans more tasks than remain in the call budget. Section 4.3: a
  transient failure is retried up to 2 times, and the call counter counts every attempted
  call, retries included.
\<close>

text \<open>Modelled from the spec: the cap on iterations (section 4.5).\<close>

definition max_iterations :: nat where
  "max_iterations = 3"

text \<open>Modelled from the spec: the cap on the backend calls of one run (section 4.5).\<close>

definition max_total_calls :: nat where
  "max_total_calls = 12"

text \<open>Modelled from the spec: the retries of a call after a transient failure (section 4.3).\<close>

definition max_retries :: nat where
  "max_retries = 2"

text \<open>
  Modelled from the spec: the result of one task (sections 4.3 and 7): a success with its
  results, a transient failure (network, timeout, 5xx) that may be retried, a non-transient
  failure (4xx, malformed response), or no attempt because the call budget is exhausted.
\<close>

datatype 'r outcome = Success 'r | TransientFailure | PermanentFailure | BudgetExhausted

text \<open>
  Modelled from the spec: the counters of \<open>AgentState\<close> (section 3); \<open>run_data\<close> stands
  for the rest of it (query, intent scores, accumulated results, reasoning trace).
\<close>

record 'c AgentState =
  iteration :: nat
  total_calls :: nat
  run_data :: 'c

text \<open>
  Modelled from the spec: the collaborators of the orchestrator (sections 4.1 to 4.6), all
  arbitrary: the classifier, the planner (given the iteration index), the backends (the
  answer to the \<open>n\<close>-th attempted call of the run, for a task), the accumulation of a
  batch's results, the reflector (its stop decision, and the run data with its strategy
  recorded for the planner), the consolidator and the summary.
\<close>

record ('c, 't, 'r) components =
  classify :: "'c \<Rightarrow> 'c"
  plan :: "'c \<Rightarrow> nat \<Rightarrow> 't list"
  backend :: "'t \<Rightarrow> nat \<Rightarrow> 'r outcome"
  accumulate :: "'c \<Rightarrow> ('t \<times> 'r outcome) list \<Rightarrow> 'c"
  reflect :: "'c \<Rightarrow> bool \<times> 'c"
  consolidate :: "'c \<Rightarrow> 'c"
  summarize :: "'c \<Rightarrow> 'c"

text \<open>
  Modelled from the spec: one task of the lookup gateway (section 4.3). A transient failure
  is retried up to \<open>max_retries\<close> times, a success or a non-transient failure ends the
  task. Every attempted call, retries included, increments the call counter, and a call is
  attempted only while the counter is below the cap (the hard limit of section 4.5).
\<close>

fun call_with_retry :: "('t \<Rightarrow> nat \<Rightarrow> 'r outcome) \<Rightarrow> 't \<Rightarrow> nat \<Rightarrow> nat \<Rightarrow> 'r outcome \<times> nat" where
  "call_with_retry b t 0 calls =
     (if max_total_calls \<le> calls then (BudgetExhausted, calls) else (b t calls, Suc calls))"
| "call_with_retry b t (Suc retries) calls =
     (if max_total_calls \<le> calls then (BudgetExhausted, calls)
      else (case b t calls of
              TransientFailure \<Rightarrow> call_with_retry b t retries (Suc calls)
            | out \<Rightarrow> (out, Suc calls)))"

text \<open>
  Modelled from the spec: a batch of tasks (section 4.3), one result per task; the
  attempts are taken one after the other (the concurrency of the batch is not modelled).
\<close>

fun execute :: "('t \<Rightarrow> nat \<Rightarrow> 'r outcome) \<Rightarrow> 't list \<Rightarrow> nat \<Rightarrow> ('t \<times> 'r outcome) list \<times> nat" where
  "execute b [] calls = ([], calls)"
| "execute b (t # ts) calls =
     (case call_with_retry b t max_retries calls of
        (out, calls1) \<Rightarrow>
          (case execute b ts calls1 of (outs, calls2) \<Rightarrow> ((t, out) # outs, calls2)))"

text \<open>
  Modelled from the spec: PLAN, EXECUTE and the accumulation of one iteration (sections
  4.2 and 4.7); the plan is truncated to the calls that remain in the budget.
\<close>

definition run_iteration :: "('c, 't, 'r) components \<Rightarrow> 'c AgentState \<Rightarrow> 'c AgentState" where
  "run_iteration K st =
     (let tasks = take (max_total_calls - total_calls st) (plan K (run_data st) (iteration st))
      in case execute (backend K) tasks (total_calls st) of
           (results, calls) \<Rightarrow>
             \<lparr>iteration = Suc (iteration st), total_calls = calls,
              run_data = accumulate K (run_data st) results\<rparr>)"

text \<open>
  Modelled from the spec: the loop PLAN, EXECUTE, REFLECT (sections 4.5 and 4.7). It ends
  when the reflector says stop, and in any case when the iteration cap or the call cap is
  reached.
\<close>

function refine_loop :: "('c, 't, 'r) components \<Rightarrow> 'c AgentState \<Rightarrow> 'c AgentState" where
  "refine_loop K st =
     (if max_iterations \<le> iteration st \<or> max_total_calls \<le> total_calls st then st
      else (let st' = run_iteration K st
            in case reflect K (run_data st') of
                 (stop, data) \<Rightarrow>
                   if stop then st'\<lparr>run_data := data\<rparr>
                   else refine_loop K (st'\<lparr>run_data := data\<rparr>)))"
  by pat_completeness auto
termination
  by (relation "measure (\<lambda>(K, st). max_iterations - iteration st)")
     (auto simp: run_iteration_def Let_def split: prod.splits)

text \<open>
  Modelled from the spec: a run of the orchestrator (section 4.7): CLASSIFY, the loop,
  CONSOLIDATE and SUMMARIZE.
\<close>

definition orchestrate :: "('c, 't, 'r) components \<Rightarrow> 'c \<Rightarrow> 'c AgentState" where
  "orchestrate K query =
     (let st = refine_loop K \<lparr>iteration = 0, total_calls = 0, run_data = classify K query\<rparr>
      in st\<lparr>run_data := summarize K (consolidate K (run_data st))\<rparr>)"


section \<open>Auxiliary predicates for the proofs\<close>

text \<open>
  \<open>from_line ls sys r\<close>: among the lines \<open>ls\<close>, the result \<open>r\<close> was read off a line
  \<open>l\<close> that follows a header line of the system \<open>sys\<close> with no other header line in
  between. \<open>open_section ls sys\<close>: the last header line of \<open>ls\<close> is one of \<open>sys\<close>.
  \<open>parse_inv\<close> is the loop invariant of \<open>parseCodeResults\<close>.
\<close>

definition from_line :: "jsstring list \<Rightarrow> jsstring \<Rightarrow> CodeResult \<Rightarrow> bool" where
  "from_line ls sys r \<longleftrightarrow>
     system r = sys \<and>
     (\<exists>before h mid l after.
        ls = before @ h # mid @ l # after \<and> systemMatch h = Some sys \<and>
        (\<forall>x \<in> set mid. systemMatch x = None) \<and> systemMatch l = None \<and>
        codeMatch l = Some (code r) \<and> displayMatch l = Some (display r) \<and>
        confidence r = confidence_of l)"

definition open_section :: "jsstring list \<Rightarrow> jsstring \<Rightarrow> bool" where
  "open_section ls sys \<longleftrightarrow>
     (\<exists>before h mid.
        ls = before @ h # mid \<and> systemMatch h = Some sys \<and>
        (\<forall>x \<in> set mid. systemMatch x = None))"

definition parse_inv :: "jsstring list \<Rightarrow> pstate \<Rightarrow> bool" where
  "parse_inv ls st \<longleftrightarrow>
     (\<forall>sys rs. (sys, rs) \<in> set (systems st) \<longrightarrow>
        (\<exists>h \<in> set ls. systemMatch h = Some sys) \<and> (\<forall>r \<in> set rs. from_line ls sys r)) \<and>
     (currentSystem st \<noteq> [] \<longrightarrow> open_section ls (currentSystem st)) \<and>
     (\<forall>lr. lastResult st = Some lr \<longrightarrow> from_line ls (currentSystem st) lr)"

text \<open>The live thread is \<open>null\<close> or exists.\<close>

definition live_ok :: "ChatHistoryState \<Rightarrow> bool" where
  "live_ok st \<longleftrightarrow> liveThreadId st = None \<or> live_exists st"

text \<open>
  \<open>lastResult\<close>, when set, is the last element of the array of \<open>currentSystem\<close>: the
  object that the parent line's assignments change.
\<close>

definition last_is_current :: "pstate \<Rightarrow> bool" where
  "last_is_current st \<longleftrightarrow>
     (\<forall>lr. lastResult st = Some lr \<longrightarrow>
        (\<exists>rs. map_of (systems st) (currentSystem st) = Some rs \<and> rs \<noteq> [] \<and> last rs = lr))"

text \<open>The two counters are within their caps.\<close>

definition within_budget :: "'c AgentState \<Rightarrow> bool" where
  "within_budget st \<longleftrightarrow> iteration st \<le> max_iterations \<and> total_calls st \<le> max_total_calls"


section \<open>Properties of the bundle store\<close>

lemma list_ex_same_key:
  "list_ex (same_key c s) xs \<longleftrightarrow> (c, s) \<in> set (map (\<lambda>i. (code i, system i)) xs)"
  by (induction xs) (auto simp: same_key_def)

lemma unique_items_addItem: "unique_items st \<Longrightarrow> unique_items (addItem i st)"
  by (simp add: unique_items_def addItem_def list_ex_same_key)

lemma unique_items_removeItem: "unique_items st \<Longrightarrow> unique_items (removeItem c s st)"
  by (simp add: unique_items_def removeItem_def distinct_map_filter)

lemma unique_items_clear: "unique_items (clear st)"
  by (simp add: unique_items_def clear_def)

lemma unique_items_step: "unique_items st \<Longrightarrow> unique_items (bundle_step st a)"
  by (cases a)
    (simp_all add: unique_items_addItem unique_items_removeItem unique_items_clear,
     simp_all add: unique_items_def toggleOpen_def setOpen_def)

lemma unique_items_foldl: "unique_items st \<Longrightarrow> unique_items (foldl bundle_step st acts)"
  by (induction acts arbitrary: st) (simp_all add: unique_items_step)

lemma hasItem_after_addItem: "hasItem (code i) (system i) (addItem i st)"
  by (auto simp: hasItem_def addItem_def list_ex_iff same_key_def)

text \<open>
  Claim C8. The bundle store never holds two items with the same (code, system) pair:
  every run of the store's actions from its initial state ends in a state with pairwise
  distinct pairs, and \<open>addItem\<close>, \<open>removeItem\<close> and \<open>clear\<close> keep the pairs distinct.
  \<open>addItem\<close> returns the state as it is when an item with the same code and system is
  present, so adding an item twice is the same as adding it once. \<open>hasItem(code, system)\<close>
  is true exactly when an item with that code and system is in the list.
\<close>

theorem bundle_uniqueness:
  "unique_items (bundle_run acts) \<and>
   (hasItem (code i) (system i) st \<longrightarrow> addItem i st = st) \<and>
   addItem i (addItem i st) = addItem i st \<and>
   (unique_items st \<longrightarrow>
      unique_items (addItem i st) \<and> unique_items (removeItem c s st) \<and> unique_items (clear st)) \<and>
   (hasItem c s st \<longleftrightarrow> (\<exists>j \<in> set (items st). code j = c \<and> system j = s))"
proof -
  have run: "unique_items (bundle_run acts)"
    unfolding bundle_run_def by (rule unique_items_foldl) (simp add: unique_items_def init_bundle_def)
  have present: "hasItem (code i) (system i) st \<longrightarrow> addItem i st = st"
    by (simp add: hasItem_def addItem_def)
  have idem: "addItem i (addItem i st) = addItem i st"
    using hasItem_after_addItem [of i st] by (simp add: hasItem_def addItem_def [of i "addItem i st"])
  have has: "hasItem c s st \<longleftrightarrow> (\<exists>j \<in> set (items st). code j = c \<and> system j = s)"
    by (simp add: hasItem_def list_ex_iff same_key_def)
  from run present idem has show ?thesis
    by (simp add: unique_items_addItem unique_items_removeItem unique_items_clear)
qed

text \<open>
  A bundle holding E11.9 of ICD-10-CM: adding E11.9 of ICD-10-CM again, with another
  display text, changes nothing.
\<close>

theorem bundle_uniqueness_witness:
  "hasItem (js ''E11.9'') (js ''ICD-10-CM'')
      (bundle_run [AddItem \<lparr>system = js ''ICD-10-CM'', code = js ''E11.9'', display = js ''Type 2 diabetes''\<rparr>]) \<and>
   unique_items (bundle_run [AddItem \<lparr>system = js ''ICD-10-CM'', code = js ''E11.9'', display = js ''Type 2 diabetes''\<rparr>]) \<and>
   addItem \<lparr>system = js ''ICD-10-CM'', code = js ''E11.9'', display = js ''T2D''\<rparr>
      (bundle_run [AddItem \<lparr>system = js ''ICD-10-CM'', code = js ''E11.9'', display = js ''Type 2 diabetes''\<rparr>])
    = bundle_run [AddItem \<lparr>system = js ''ICD-10-CM'', code = js ''E11.9'', display = js ''Type 2 diabetes''\<rparr>] \<and>
   unique_items (removeItem (js ''E11.9'') (js ''ICD-10-CM'')
      (bundle_run [AddItem \<lparr>system = js ''ICD-10-CM'', code = js ''E11.9'', display = js ''Type 2 diabetes''\<rparr>]))"
proof -
  let ?a = "\<lparr>system = js ''ICD-10-CM'', code = js ''E11.9'', display = js ''Type 2 diabetes''\<rparr>"
  let ?b = "\<lparr>system = js ''ICD-10-CM'', code = js ''E11.9'', display = js ''T2D''\<rparr>"
  let ?st = "bundle_run [AddItem ?a]"
  have h: "hasItem (js ''E11.9'') (js ''ICD-10-CM'') ?st"
    by (simp add: bundle_run_def init_bundle_def addItem_def hasItem_def same_key_def)
  have u: "unique_items ?st"
    using bundle_uniqueness [of "[AddItem ?a]"] by simp
  from h u bundle_uniqueness [of "[]" ?b ?st "js ''E11.9''" "js ''ICD-10-CM''"]
  show ?thesis by simp
qed


section \<open>Properties of the chat history store\<close>

lemma live_exists_createThread: "live_exists (createThread i now st)"
  by (simp add: live_exists_def createThread_def)

lemma liveThreadId_deleteThread: "liveThreadId (deleteThread i st) = liveThreadId st"
  by (simp add: deleteThread_def Let_def)

lemma threads_deleteThread:
  "liveThreadId st \<noteq> Some i \<Longrightarrow>
   threads (deleteThread i st) = filter (\<lambda>t. thread_id t \<noteq> i) (threads st)"
  by (auto simp: deleteThread_def Let_def)

lemma live_exists_deleteThread: "live_exists st \<Longrightarrow> live_exists (deleteThread i st)"
proof (cases "liveThreadId st = Some i")
  case True
  assume "live_exists st"
  with True show ?thesis by (simp add: deleteThread_def)
next
  case False
  assume "live_exists st"
  then obtain t where t: "t \<in> set (threads st)" "Some (thread_id t) = liveThreadId st"
    by (auto simp: live_exists_def list_ex_iff)
  with False have "thread_id t \<noteq> i" by auto
  with t False show ?thesis
    by (auto simp: live_exists_def list_ex_iff threads_deleteThread liveThreadId_deleteThread)
qed

lemma live_ok_step: "live_ok st \<Longrightarrow> live_ok (history_step st a)"
  by (cases a)
    (auto simp: live_ok_def live_exists_createThread live_exists_deleteThread
       liveThreadId_deleteThread)

lemma live_ok_foldl: "live_ok st \<Longrightarrow> live_ok (foldl history_step st acts)"
  by (induction acts arbitrary: st) (simp_all add: live_ok_step)

lemma live_exists_foldl: "live_exists st \<Longrightarrow> live_exists (foldl history_step st acts)"
proof (induction acts arbitrary: st)
  case Nil
  then show ?case by simp
next
  case (Cons a acts)
  have "live_exists (history_step st a)"
    using Cons.prems by (cases a) (simp_all add: live_exists_createThread live_exists_deleteThread)
  then show ?case by (simp add: Cons.IH)
qed

lemma live_exists_after_create:
  "CreateThread i now \<in> set acts \<Longrightarrow> live_exists (foldl history_step st acts)"
proof (induction acts arbitrary: st)
  case Nil
  then show ?case by simp
next
  case (Cons a acts)
  show ?case
  proof (cases "a = CreateThread i now")
    case True
    then show ?thesis by (simp add: live_exists_foldl live_exists_createThread)
  next
    case False
    with Cons.prems have "CreateThread i now \<in> set acts" by simp
    then show ?thesis by (simp add: Cons.IH)
  qed
qed

text \<open>
  Claim C9, as amended. \<open>deleteThread(id)\<close> with \<open>id\<close> equal to \<open>liveThreadId\<close> returns
  the state unchanged. For any other \<open>id\<close> it removes the threads with that identifier,
  keeps every other thread as it is and in order, and leaves \<open>liveThreadId\<close> (and
  \<open>isOpen\<close>) unchanged. After any sequence of \<open>createThread\<close> and \<open>deleteThread\<close>
  operations from the initial state, \<open>liveThreadId\<close> is \<open>null\<close> or the identifier of an
  existing thread; it is the identifier of an existing thread as soon as the sequence
  contains a \<open>createThread\<close>.
\<close>

theorem deleteThread_live_protection:
  "(liveThreadId st = Some i \<longrightarrow> deleteThread i st = st) \<and>
   (liveThreadId st \<noteq> Some i \<longrightarrow>
      threads (deleteThread i st) = filter (\<lambda>t. thread_id t \<noteq> i) (threads st) \<and>
      liveThreadId (deleteThread i st) = liveThreadId st \<and>
      historyOpen (deleteThread i st) = historyOpen st) \<and>
   (liveThreadId (history_run acts) = None \<or> live_exists (history_run acts)) \<and>
   (CreateThread j now \<in> set acts \<longrightarrow> live_exists (history_run acts))"
proof -
  have a: "liveThreadId st = Some i \<longrightarrow> deleteThread i st = st"
    by (simp add: deleteThread_def)
  have b: "historyOpen (deleteThread i st) = historyOpen st"
    by (simp add: deleteThread_def Let_def)
  have "live_ok init_history"
    by (simp add: live_ok_def init_history_def)
  then have "live_ok (history_run acts)"
    unfolding history_run_def by (rule live_ok_foldl)
  then have c: "liveThreadId (history_run acts) = None \<or> live_exists (history_run acts)"
    by (simp add: live_ok_def)
  have d: "CreateThread j now \<in> set acts \<longrightarrow> live_exists (history_run acts)"
    by (simp add: history_run_def live_exists_after_create)
  from a b c d show ?thesis
    by (simp add: threads_deleteThread liveThreadId_deleteThread)
qed

text \<open>
  Claim C9 as stated fails where no thread has been created: after the single operation
  \<open>deleteThread("thread_1")\<close> on the initial state, \<open>liveThreadId\<close> is \<open>null\<close> and
  refers to no thread.
\<close>

theorem live_thread_counterexample:
  "\<not> live_exists (history_run [DeleteThread (js ''thread_1'')])"
  by (simp add: live_exists_def history_run_def init_history_def deleteThread_def or_else_def)

text \<open>
  Two threads \<open>a\<close> and \<open>b\<close> created in this order: \<open>b\<close> is live and cannot be
  deleted; deleting \<open>a\<close> leaves \<open>b\<close> alone.
\<close>

theorem deleteThread_live_protection_witness:
  "liveThreadId (history_run [CreateThread (js ''a'') (js ''t1''), CreateThread (js ''b'') (js ''t2'')]) = Some (js ''b'') \<and>
   deleteThread (js ''b'') (history_run [CreateThread (js ''a'') (js ''t1''), CreateThread (js ''b'') (js ''t2'')]) =
     history_run [CreateThread (js ''a'') (js ''t1''), CreateThread (js ''b'') (js ''t2'')] \<and>
   liveThreadId (history_run [CreateThread (js ''a'') (js ''t1''), CreateThread (js ''b'') (js ''t2'')]) \<noteq> Some (js ''a'') \<and>
   map thread_id (threads (deleteThread (js ''a'')
      (history_run [CreateThread (js ''a'') (js ''t1''), CreateThread (js ''b'') (js ''t2'')]))) = [js ''b''] \<and>
   CreateThread (js ''b'') (js ''t2'') \<in> set [CreateThread (js ''a'') (js ''t1''), CreateThread (js ''b'') (js ''t2'')] \<and>
   live_exists (history_run [CreateThread (js ''a'') (js ''t1''), CreateThread (js ''b'') (js ''t2'')])"
proof -
  let ?acts = "[CreateThread (js ''a'') (js ''t1''), CreateThread (js ''b'') (js ''t2'')]"
  have l: "liveThreadId (history_run ?acts) = Some (js ''b'')"
    by (simp add: history_run_def init_history_def createThread_def)
  have n: "liveThreadId (history_run ?acts) \<noteq> Some (js ''a'')"
    by (simp add: history_run_def init_history_def createThread_def js_def)
  have t: "map thread_id (filter (\<lambda>t. thread_id t \<noteq> js ''a'') (threads (history_run ?acts))) = [js ''b'']"
    by (simp add: history_run_def init_history_def createThread_def js_def)
  from l n t
    deleteThread_live_protection [of "history_run ?acts" "js ''b''" ?acts "js ''b''" "js ''t2''"]
    deleteThread_live_protection [of "history_run ?acts" "js ''a''" ?acts "js ''b''" "js ''t2''"]
  show ?thesis by simp
qed


section \<open>Properties of the confidence score\<close>

lemma compute_confidence_unfold:
  "compute_confidence jaccard_similarity embedding_similarity query r =
     0.30 * jaccard_similarity query (result_display r) + 0.20 * rank_decay (get_rank r) +
     0.20 * min (real (length (result_code r)) / 10) 1 +
     0.30 * embedding_similarity query (result_display r)"
  by (simp add: compute_confidence_def scores_def rank_decay_def mult.commute)

text \<open>
  Claim C5. For every query and result, \<open>compute_confidence\<close> is the weighted sum
  0.30 * lexical overlap + 0.20 * 1 / (1 + rank * 0.1) + 0.20 * min(code specificity, 1.0)
  + 0.30 * semantic similarity, where the lexical overlap and the semantic similarity are
  those of the query and the display text, and the four weights sum to 1.
\<close>

theorem compute_confidence_formula:
  "compute_confidence jaccard_similarity embedding_similarity query r =
     spec_score (jaccard_similarity query (result_display r)) (get_rank r) (result_code r)
       (embedding_similarity query (result_display r)) \<and>
   sum_list (map snd (scores jaccard_similarity embedding_similarity query r)) = 1"
  by (simp add: compute_confidence_unfold spec_score_def code_specificity_def scores_def)

lemma rank_decay_antitone: "m \<le> n \<Longrightarrow> rank_decay n \<le> rank_decay m"
  unfolding rank_decay_def by (intro divide_left_mono) (auto intro!: mult_pos_pos add_pos_nonneg)

text \<open>
  Claim C6. Of two results with the same code and display text, the one with the smaller
  backend rank has a confidence score greater than or equal to the other's, for every
  query.
\<close>

theorem compute_confidence_rank_monotone:
  assumes "result_code r1 = result_code r2" and "result_display r1 = result_display r2"
    and "get_rank r1 \<le> get_rank r2"
  shows "compute_confidence jaccard_similarity embedding_similarity query r2
         \<le> compute_confidence jaccard_similarity embedding_similarity query r1"
proof -
  have "rank_decay (get_rank r2) \<le> rank_decay (get_rank r1)"
    using assms(3) by (rule rank_decay_antitone)
  with assms(1,2) show ?thesis
    by (simp add: compute_confidence_unfold)
qed

text \<open>A result without a rank (rank 0) against the same result at rank 4.\<close>

theorem compute_confidence_rank_monotone_witness:
  "get_rank \<lparr>result_code = js ''E11.9'', result_display = js ''diabetes'', result_rank = None\<rparr>
     \<le> get_rank \<lparr>result_code = js ''E11.9'', result_display = js ''diabetes'', result_rank = Some 4\<rparr> \<and>
   compute_confidence (\<lambda>a b. 1) (\<lambda>a b. 0) (js ''diabetes'')
       \<lparr>result_code = js ''E11.9'', result_display = js ''diabetes'', result_rank = Some 4\<rparr>
     \<le> compute_confidence (\<lambda>a b. 1) (\<lambda>a b. 0) (js ''diabetes'')
       \<lparr>result_code = js ''E11.9'', result_display = js ''diabetes'', result_rank = None\<rparr>"
proof -
  let ?r1 = "\<lparr>result_code = js ''E11.9'', result_display = js ''diabetes'', result_rank = None\<rparr>"
  let ?r2 = "\<lparr>result_code = js ''E11.9'', result_display = js ''diabetes'', result_rank = Some 4\<rparr>"
  have h: "get_rank ?r1 \<le> get_rank ?r2" by (simp add: get_rank_def)
  from h compute_confidence_rank_monotone [of ?r1 ?r2 "\<lambda>a b. 1" "\<lambda>a b. 0" "js ''diabetes''"]
  show ?thesis by simp
qed


section \<open>Properties of the orchestrator's budgets\<close>

lemma call_with_retry_bound:
  "calls \<le> max_total_calls \<Longrightarrow> snd (call_with_retry b t retries calls) \<le> max_total_calls"
  by (induction b t retries calls rule: call_with_retry.induct)
     (auto split: outcome.splits)

lemma execute_bound:
  "calls \<le> max_total_calls \<Longrightarrow> snd (execute b ts calls) \<le> max_total_calls"
proof (induction ts arbitrary: calls)
  case Nil
  then show ?case by simp
next
  case (Cons t ts)
  obtain out calls1 where c: "call_with_retry b t max_retries calls = (out, calls1)"
    by (cases "call_with_retry b t max_retries calls")
  with call_with_retry_bound [OF Cons.prems, of b t max_retries]
  have "calls1 \<le> max_total_calls" by simp
  from Cons.IH [OF this] c show ?case by (auto split: prod.splits)
qed

lemma run_iteration_within_budget:
  assumes "within_budget st" and "iteration st < max_iterations"
  shows "within_budget (run_iteration K st)"
proof -
  from assms(1) have "total_calls st \<le> max_total_calls" by (simp add: within_budget_def)
  from execute_bound [OF this, of "backend K"
      "take (max_total_calls - total_calls st) (plan K (run_data st) (iteration st))"] assms(2)
  show ?thesis
    by (auto simp: run_iteration_def within_budget_def Let_def split: prod.splits)
qed

lemma within_budget_run_data: "within_budget (st\<lparr>run_data := d\<rparr>) = within_budget st"
  by (simp add: within_budget_def)

lemma refine_loop_within_budget:
  "within_budget st \<Longrightarrow> within_budget (refine_loop K st)"
proof (induction K st rule: refine_loop.induct)
  case (1 K st)
  show ?case
  proof (cases "max_iterations \<le> iteration st \<or> max_total_calls \<le> total_calls st")
    case True
    with "1.prems" show ?thesis by simp
  next
    case False
    then have "iteration st < max_iterations" by simp
    from run_iteration_within_budget [OF "1.prems" this]
    have step: "within_budget (run_iteration K st)" .
    obtain stop d where r: "reflect K (run_data (run_iteration K st)) = (stop, d)"
      by (cases "reflect K (run_data (run_iteration K st))")
    from step have step': "within_budget (run_iteration K st\<lparr>run_data := d\<rparr>)"
      by (simp add: within_budget_run_data)
    show ?thesis
    proof (cases stop)
      case True
      with False step' r show ?thesis by (simp add: Let_def)
    next
      case continue: False
      from "1.IH" [OF False refl r [symmetric] continue step'] False r continue
      show ?thesis by (simp add: Let_def)
    qed
  qed
qed

text \<open>
  Both caps are reached. A planner that always asks for 20 tasks against backends that
  always fail transiently: the first iteration uses up the 12 calls, retries included. A
  planner that asks for 2 tasks per iteration against a reflector that never stops: the
  run ends after 3 iterations.
\<close>

lemma call_cap_reached:
  "orchestrate \<lparr>classify = (\<lambda>c. c), plan = (\<lambda>c i. replicate 20 ()),
     backend = (\<lambda>t n. TransientFailure), accumulate = (\<lambda>c rs. c), reflect = (\<lambda>c. (False, c)),
     consolidate = (\<lambda>c. c), summarize = (\<lambda>c. c)\<rparr> ()
   = \<lparr>iteration = 1, total_calls = 12, run_data = ()\<rparr>"
  by code_simp

lemma iteration_cap_reached:
  "orchestrate \<lparr>classify = (\<lambda>c. c), plan = (\<lambda>c i. [(), ()]),
     backend = (\<lambda>t n. Success ()), accumulate = (\<lambda>c rs. c), reflect = (\<lambda>c. (False, c)),
     consolidate = (\<lambda>c. c), summarize = (\<lambda>c. c)\<rparr> ()
   = \<lparr>iteration = 3, total_calls = 6, run_data = ()\<rparr>"
  by code_simp

text \<open>
  Claim C4. In every run of the orchestrator, whatever the classifier, the planner, the
  backends and the reflector do, the total number of backend calls made is at most 12
  and the number of iterations is at most 3.
\<close>

theorem budget_invariant:
  "total_calls (orchestrate K query) \<le> 12 \<and> iteration (orchestrate K query) \<le> 3"
proof -
  have "within_budget \<lparr>iteration = 0, total_calls = 0, run_data = classify K query\<rparr>"
    by (simp add: within_budget_def)
  from refine_loop_within_budget [OF this, of K] show ?thesis
    by (simp add: orchestrate_def Let_def within_budget_def max_iterations_def max_total_calls_def)
qed


section \<open>Properties of handleSubmit\<close>

text \<open>
  Claim C3. For every input whose trimmed form is empty, \<open>handleSubmit\<close> returns without
  calling \<open>sendMessage\<close> and leaves the input state unchanged; the query it would have
  sent is the empty string, for which the orchestrator makes zero backend calls and
  answers with an empty result list and the fixed "no query provided" summary.
\<close>

theorem empty_query_rejected:
  assumes "trim input = []"
  shows "handleSubmit input loading = (input, []) \<and>
         runSearch no_query_provided pipeline (trim input) =
           \<lparr>answer_summary = no_query_provided, answer_results = [], backend_calls = 0\<rparr>"
  using assms by (simp add: handleSubmit_def runSearch_def)

text \<open>An input of two blanks.\<close>

theorem empty_query_rejected_witness:
  "trim (js ''  '') = [] \<and> handleSubmit (js ''  '') False = (js ''  '', []) \<and>
   runSearch (js ''no query provided'')
       (\<lambda>q. \<lparr>answer_summary = q, answer_results = [()], backend_calls = 1\<rparr>)
       (trim (js ''  '')) =
     \<lparr>answer_summary = js ''no query provided'', answer_results = [], backend_calls = 0\<rparr>"
proof -
  have h: "trim (js ''  '') = []" by (simp add: trim_def js_def is_space_def)
  from h empty_query_rejected [OF h, of False "js ''no query provided''"
      "\<lambda>q. \<lparr>answer_summary = q, answer_results = [()], backend_calls = 1\<rparr>"]
  show ?thesis by simp
qed


section \<open>Properties of the matcher\<close>

lemma split_nl_nonempty: "split_nl s \<noteq> []"
  by (induction s) (auto split: list.splits)

lemma split_nl_head: "split_nl s = l # ls \<Longrightarrow> \<exists>post. s = l @ post"
proof (induction s arbitrary: l ls)
  case Nil
  then show ?case by simp
next
  case (Cons c cs)
  show ?case
  proof (cases "c = 10")
    case True
    with Cons.prems show ?thesis by auto
  next
    case False
    obtain l0 ls0 where sp: "split_nl cs = l0 # ls0"
      using split_nl_nonempty [of cs] by (cases "split_nl cs") auto
    with Cons.IH obtain post where "cs = l0 @ post" by blast
    with False sp Cons.prems show ?thesis by auto
  qed
qed

lemma split_nl_line: "l \<in> set (split_nl s) \<Longrightarrow> \<exists>pre post. s = pre @ l @ post"
proof (induction s arbitrary: l)
  case Nil
  then show ?case by simp
next
  case (Cons c cs)
  obtain l0 ls0 where sp: "split_nl cs = l0 # ls0"
    using split_nl_nonempty [of cs] by (cases "split_nl cs") auto
  show ?case
  proof (cases "c = 10")
    case True
    with Cons.prems have "l = [] \<or> l \<in> set (split_nl cs)" by simp
    then show ?thesis
    proof
      assume "l = []"
      then have "c # cs = [] @ l @ (c # cs)" by simp
      then show ?thesis by blast
    next
      assume "l \<in> set (split_nl cs)"
      with Cons.IH obtain pre post where "cs = pre @ l @ post" by blast
      then have "c # cs = (c # pre) @ l @ post" by simp
      then show ?thesis by blast
    qed
  next
    case False
    with Cons.prems sp have "l = c # l0 \<or> l \<in> set (split_nl cs)" by auto
    then show ?thesis
    proof
      assume l: "l = c # l0"
      from split_nl_head [OF sp] obtain post where "cs = l0 @ post" by blast
      with l have "c # cs = [] @ l @ post" by simp
      then show ?thesis by blast
    next
      assume "l \<in> set (split_nl cs)"
      with Cons.IH obtain pre post where "cs = pre @ l @ post" by blast
      then have "c # cs = (c # pre) @ l @ post" by simp
      then show ?thesis by blast
    qed
  qed
qed

lemma rx_search_sound:
  "rx_search re s = Some m \<Longrightarrow> \<exists>pre t. s = pre @ t \<and> rx re t [] [] = Some m"
proof (induction s)
  case Nil
  then show ?case by simp
next
  case (Cons x xs)
  show ?case
  proof (cases "rx re (x # xs) [] []")
    case None
    with Cons.prems have "rx_search re xs = Some m" by simp
    with Cons.IH obtain pre t where "xs = pre @ t" "rx re t [] [] = Some m" by blast
    then have "x # xs = (x # pre) @ t \<and> rx re t [] [] = Some m" by simp
    then show ?thesis by blast
  next
    case (Some a)
    with Cons.prems have "x # xs = [] @ (x # xs) \<and> rx re (x # xs) [] [] = Some m" by simp
    then show ?thesis by blast
  qed
qed

lemma rx_search_here: "rx re t [] [] \<noteq> None \<Longrightarrow> rx_search re t \<noteq> None"
  by (cases t) auto

lemma rx_search_complete: "rx re t [] [] \<noteq> None \<Longrightarrow> rx_search re (pre @ t) \<noteq> None"
  by (induction pre) (auto simp: rx_search_here split: option.splits)

lemma rx_Opt_fallback: "rx r s g caps \<noteq> None \<Longrightarrow> rx (Opt c # r) s g caps \<noteq> None"
  by (cases s) (simp_all split: option.splits)

lemma rx_Star_fallback: "rx r s g caps \<noteq> None \<Longrightarrow> rx (Star c # r) s g caps \<noteq> None"
  by (cases s) (simp_all split: option.splits)

lemma rx_extend:
  "rx re s g caps \<noteq> None \<Longrightarrow> Eol \<notin> set re \<Longrightarrow> rx re (s @ t) g' caps' \<noteq> None"
proof (induction re s g caps arbitrary: g' caps' rule: rx.induct)
  case (1 s g caps)
  then show ?case by simp
next
  case (2 c r s g caps)
  from "2.prems"(1) obtain x xs where s: "s = x # xs" and x: "in_class c x"
    and ok: "rx r xs g caps \<noteq> None"
    by (cases s) (simp_all split: if_splits)
  from "2.IH" [OF s x ok] "2.prems"(2) have "rx r (xs @ t) g' caps' \<noteq> None" by simp
  with s x show ?case by simp
next
  case (3 c r s g caps)
  from "3.prems"(2) have r: "Eol \<notin> set r" by simp
  show ?case
  proof (cases s)
    case Nil
    with "3.prems"(1) have "rx r s g caps \<noteq> None" by simp
    from "3.IH"(1) [OF Nil this r] have "rx r (s @ t) g' caps' \<noteq> None" .
    then show ?thesis by (rule rx_Opt_fallback)
  next
    case (Cons x xs)
    show ?thesis
    proof (cases "in_class c x \<and> rx r xs g caps \<noteq> None")
      case True
      with "3.IH"(2) [OF Cons] r have "rx r (xs @ t) g' caps' \<noteq> None" by simp
      with Cons True show ?thesis by (auto split: option.splits)
    next
      case False
      with "3.prems"(1) Cons have ok: "rx r s g caps \<noteq> None"
        by (auto split: if_splits option.splits)
      have "rx r (s @ t) g' caps' \<noteq> None"
      proof (cases "in_class c x")
        case True
        with False have "rx r xs g caps = None" by simp
        from "3.IH"(3) [OF Cons True this ok r] show ?thesis .
      next
        case False
        from "3.IH"(4) [OF Cons False ok r] show ?thesis .
      qed
      then show ?thesis by (rule rx_Opt_fallback)
    qed
  qed
next
  case (4 c r s g caps)
  from "4.prems"(2) have r: "Eol \<notin> set r" and sr: "Eol \<notin> set (Star c # r)" by simp_all
  show ?case
  proof (cases s)
    case Nil
    with "4.prems"(1) have "rx r s g caps \<noteq> None" by simp
    from "4.IH"(1) [OF Nil this r] have "rx r (s @ t) g' caps' \<noteq> None" .
    then show ?thesis by (rule rx_Star_fallback)
  next
    case (Cons x xs)
    show ?thesis
    proof (cases "in_class c x \<and> rx (Star c # r) xs g caps \<noteq> None")
      case True
      with "4.IH"(2) [OF Cons] sr have "rx (Star c # r) (xs @ t) g' caps' \<noteq> None" by blast
      with Cons True show ?thesis by (auto split: option.splits)
    next
      case False
      with "4.prems"(1) Cons have ok: "rx r s g caps \<noteq> None"
        by (auto split: if_splits option.splits)
      have "rx r (s @ t) g' caps' \<noteq> None"
      proof (cases "in_class c x")
        case True
        with False have "rx (Star c # r) xs g caps = None" by simp
        from "4.IH"(3) [OF Cons True this ok r] show ?thesis .
      next
        case False
        from "4.IH"(4) [OF Cons False ok r] show ?thesis .
      qed
      then show ?thesis by (rule rx_Star_fallback)
    qed
  qed
next
  case (5 c r s g caps)
  from "5.prems"(1) obtain x xs where s: "s = x # xs" and x: "in_class c x"
    and ok: "rx (Star c # r) xs g caps \<noteq> None"
    by (cases s) (simp_all split: if_splits)
  from "5.prems"(2) have "Eol \<notin> set (Star c # r)" by simp
  from "5.IH" [OF s x ok this] have "rx (Star c # r) (xs @ t) g' caps' \<noteq> None" .
  with s x show ?case by simp
next
  case (6 c r s g caps)
  from "6.prems"(2) have r: "Eol \<notin> set r" and sr: "Eol \<notin> set (StarLazy c # r)" by simp_all
  show ?case
  proof (cases "rx r s g caps")
    case (Some m)
    then have "rx r s g caps \<noteq> None" by simp
    from "6.IH"(1) [OF this r] have "rx r (s @ t) g' caps' \<noteq> None" .
    then show ?thesis by (auto split: option.splits)
  next
    case None
    with "6.prems"(1) obtain x xs where s: "s = x # xs" and x: "in_class c x"
      and ok: "rx (StarLazy c # r) xs g caps \<noteq> None"
      by (cases s) (simp_all split: if_splits)
    from "6.IH"(2) [OF None s x ok sr] have "rx (StarLazy c # r) (xs @ t) g' caps' \<noteq> None" .
    with s x show ?thesis by (auto split: option.splits)
  qed
next
  case (7 c r s g caps)
  from "7.prems"(1) obtain x xs where s: "s = x # xs" and x: "in_class c x"
    and ok: "rx (StarLazy c # r) xs g caps \<noteq> None"
    by (cases s) (simp_all split: if_splits)
  from "7.prems"(2) have "Eol \<notin> set (StarLazy c # r)" by simp
  from "7.IH" [OF s x ok this] have "rx (StarLazy c # r) (xs @ t) g' caps' \<noteq> None" .
  with s x show ?case by simp
next
  case (8 r s g caps)
  then show ?case by simp
next
  case (9 r s g caps)
  then show ?case by simp
next
  case (10 r s g caps)
  then show ?case by simp
qed

lemma rx_group_until_lit:
  "rx [Star cl, GClose, One (Lit k)] xs g caps = Some m \<Longrightarrow>
   \<exists>ys q. xs = ys @ k # q \<and> m = caps @ [take (length g - length (k # q)) g]"
proof (induction xs)
  case Nil
  then show ?case by simp
next
  case (Cons x xs)
  show ?case
  proof (cases "in_class cl x \<and> rx [Star cl, GClose, One (Lit k)] xs g caps \<noteq> None")
    case True
    with Cons.prems have "rx [Star cl, GClose, One (Lit k)] xs g caps = Some m"
      by (auto split: option.splits)
    with Cons.IH obtain ys q where "xs = ys @ k # q"
      "m = caps @ [take (length g - length (k # q)) g]" by blast
    then have "x # xs = (x # ys) @ k # q \<and> m = caps @ [take (length g - length (k # q)) g]"
      by simp
    then show ?thesis by blast
  next
    case False
    with Cons.prems have "rx [GClose, One (Lit k)] (x # xs) g caps = Some m"
      by (auto split: option.splits if_splits)
    then have "x = k" and "m = caps @ [take (length g - length (x # xs)) g]"
      by (auto split: if_splits)
    then have "x # xs = [] @ k # xs \<and> m = caps @ [take (length g - length (k # xs)) g]"
      by simp
    then show ?thesis by blast
  qed
qed

lemma code_re_sound:
  assumes "rx code_re t [] [] = Some m"
  shows "\<exists>c q. t = 96 # c @ 96 # q \<and> m = [c]"
proof -
  from assms obtain t1 where t: "t = 96 # t1"
    and m1: "rx [Plus NotBacktick, GClose, One (Lit 96)] t1 t1 [] = Some m"
    by (cases t) (auto simp: code_re_def split: if_splits)
  from m1 obtain x xs where t1: "t1 = x # xs"
    and m2: "rx [Star NotBacktick, GClose, One (Lit 96)] xs (x # xs) [] = Some m"
    by (cases t1) (auto split: if_splits)
  from rx_group_until_lit [OF m2] obtain ys q where
    xs: "xs = ys @ 96 # q" and m: "m = [] @ [take (length (x # xs) - length (96 # q)) (x # xs)]"
    by blast
  from xs m have "m = [x # ys]" by simp
  with t t1 xs have "t = 96 # (x # ys) @ 96 # q \<and> m = [x # ys]" by simp
  then show ?thesis by blast
qed

lemma codeMatch_sound:
  assumes "codeMatch l = Some c"
  shows "\<exists>p q. l = p @ [96] @ c @ [96] @ q"
proof -
  from assms have "rx_search code_re l = Some [c]"
    by (auto simp: codeMatch_def split: option.splits list.splits)
  then obtain pre t where l: "l = pre @ t" and "rx code_re t [] [] = Some [c]"
    using rx_search_sound by blast
  from code_re_sound [OF this(2)] obtain q where "t = 96 # c @ 96 # q" by auto
  with l have "l = pre @ [96] @ c @ [96] @ q" by simp
  then show ?thesis by blast
qed

text \<open>
  A successful match closes as many groups as the pattern has; so the wrappers of the five
  \<open>match\<close> calls report every match of their pattern.
\<close>

lemma rx_captures:
  "rx re s g caps = Some m \<Longrightarrow> length m = length caps + count_list re GClose"
proof (induction re s g caps arbitrary: m rule: rx.induct)
  case (1 s g caps)
  then show ?case by simp
next
  case (2 c r s g caps)
  from "2.prems" obtain x xs where s: "s = x # xs" and x: "in_class c x"
    and ok: "rx r xs g caps = Some m"
    by (cases s) (simp_all split: if_splits)
  from "2.IH" [OF s x ok] show ?case by simp
next
  case (3 c r s g caps)
  show ?case
  proof (cases s)
    case Nil
    with "3.prems" have "rx r s g caps = Some m" by simp
    from "3.IH"(1) [OF Nil this] show ?thesis by simp
  next
    case (Cons x xs)
    show ?thesis
    proof (cases "in_class c x")
      case True
      show ?thesis
      proof (cases "rx r xs g caps")
        case None
        with "3.prems" Cons True have "rx r s g caps = Some m" by simp
        from "3.IH"(3) [OF Cons True None this] show ?thesis by simp
      next
        case (Some a)
        with "3.prems" Cons True have "rx r xs g caps = Some m" by simp
        from "3.IH"(2) [OF Cons True this] show ?thesis by simp
      qed
    next
      case False
      with "3.prems" Cons have "rx r s g caps = Some m" by simp
      from "3.IH"(4) [OF Cons False this] show ?thesis by simp
    qed
  qed
next
  case (4 c r s g caps)
  show ?case
  proof (cases s)
    case Nil
    with "4.prems" have "rx r s g caps = Some m" by simp
    from "4.IH"(1) [OF Nil this] show ?thesis by simp
  next
    case (Cons x xs)
    show ?thesis
    proof (cases "in_class c x")
      case True
      show ?thesis
      proof (cases "rx (Star c # r) xs g caps")
        case None
        with "4.prems" Cons True have "rx r s g caps = Some m" by simp
        from "4.IH"(3) [OF Cons True None this] show ?thesis by simp
      next
        case (Some a)
        with "4.prems" Cons True have "rx (Star c # r) xs g caps = Some m" by simp
        from "4.IH"(2) [OF Cons True this] show ?thesis by simp
      qed
    next
      case False
      with "4.prems" Cons have "rx r s g caps = Some m" by simp
      from "4.IH"(4) [OF Cons False this] show ?thesis by simp
    qed
  qed
next
  case (5 c r s g caps)
  from "5.prems" obtain x xs where s: "s = x # xs" and x: "in_class c x"
    and ok: "rx (Star c # r) xs g caps = Some m"
    by (cases s) (simp_all split: if_splits)
  from "5.IH" [OF s x ok] show ?case by simp
next
  case (6 c r s g caps)
  show ?case
  proof (cases "rx r s g caps")
    case (Some a)
    with "6.prems" have "rx r s g caps = Some m" by simp
    from "6.IH"(1) [OF this] show ?thesis by simp
  next
    case None
    with "6.prems" obtain x xs where s: "s = x # xs" and x: "in_class c x"
      and ok: "rx (StarLazy c # r) xs g caps = Some m"
      by (cases s) (simp_all split: if_splits)
    from "6.IH"(2) [OF None s x ok] show ?thesis by simp
  qed
next
  case (7 c r s g caps)
  from "7.prems" obtain x xs where s: "s = x # xs" and x: "in_class c x"
    and ok: "rx (StarLazy c # r) xs g caps = Some m"
    by (cases s) (simp_all split: if_splits)
  from "7.IH" [OF s x ok] show ?case by simp
next
  case (8 r s g caps)
  then show ?case by simp
next
  case (9 r s g caps)
  then show ?case by simp
next
  case (10 r s g caps)
  then show ?case by (simp split: if_splits)
qed

lemma rx_search_captures:
  "rx_search re s = Some m \<Longrightarrow> length m = count_list re GClose"
  using rx_search_sound [of re s m] rx_captures [of re _ "[]" "[]" m] by auto

lemma systemMatch_None_iff: "systemMatch l = None \<longleftrightarrow> rx_anchored header_re l = None"
proof (cases "rx_anchored header_re l")
  case None
  then show ?thesis by (simp add: systemMatch_def)
next
  case (Some m)
  then have "length m = 1"
    using rx_captures [of header_re l "[]" "[]" m]
    by (simp add: rx_anchored_def header_re_def lits_def)
  then obtain n where "m = [n]" by (cases m) auto
  with Some show ?thesis by (simp add: systemMatch_def)
qed

lemma parentMatch_None_iff: "parentMatch l = None \<longleftrightarrow> rx_anchored parent_re l = None"
proof (cases "rx_anchored parent_re l")
  case None
  then show ?thesis by (simp add: parentMatch_def)
next
  case (Some m)
  then have "length m = 2"
    using rx_captures [of parent_re l "[]" "[]" m]
    by (simp add: rx_anchored_def parent_re_def lits_def)
  then obtain c d where "m = [c, d]" by (cases m; cases "tl m") auto
  with Some show ?thesis by (simp add: parentMatch_def)
qed

lemma codeMatch_None_iff: "codeMatch l = None \<longleftrightarrow> rx_search code_re l = None"
proof (cases "rx_search code_re l")
  case None
  then show ?thesis by (simp add: codeMatch_def)
next
  case (Some m)
  then have "length m = 1"
    using rx_search_captures [of code_re l m] by (simp add: code_re_def)
  then obtain n where "m = [n]" by (cases m) auto
  with Some show ?thesis by (simp add: codeMatch_def)
qed

lemma displayMatch_None_iff: "displayMatch l = None \<longleftrightarrow> rx_search display_re l = None"
proof (cases "rx_search display_re l")
  case None
  then show ?thesis by (simp add: displayMatch_def)
next
  case (Some m)
  then have "length m = 1"
    using rx_search_captures [of display_re l m] by (simp add: display_re_def lits_def)
  then obtain n where "m = [n]" by (cases m) auto
  with Some show ?thesis by (simp add: displayMatch_def)
qed

lemma pctMatch_None_iff: "pctMatch l = None \<longleftrightarrow> rx_search pct_re l = None"
proof (cases "rx_search pct_re l")
  case None
  then show ?thesis by (simp add: pctMatch_def)
next
  case (Some m)
  then have "length m = 1"
    using rx_search_captures [of pct_re l m] by (simp add: pct_re_def lits_def)
  then obtain n where "m = [n]" by (cases m) auto
  with Some show ?thesis by (simp add: pctMatch_def)
qed


section \<open>The loop invariant of parseCodeResults\<close>

lemma set_update_cases:
  "(k, v) \<in> set (AList.update n w al) \<Longrightarrow> (k, v) \<in> set al \<or> (k = n \<and> v = w)"
  by (induction al) (auto split: if_splits)

lemma set_map_entry_cases:
  "(k, v) \<in> set (AList.map_entry n f al) \<Longrightarrow>
   (k, v) \<in> set al \<or> (k = n \<and> (\<exists>v0. (n, v0) \<in> set al \<and> v = f v0))"
  by (induction al) (auto split: if_splits)

lemma from_line_append: "from_line ls sys r \<Longrightarrow> from_line (ls @ ls') sys r"
proof -
  assume "from_line ls sys r"
  then obtain before h mid l after where
    ls: "ls = before @ h # mid @ l # after" and
    rest: "system r = sys" "systemMatch h = Some sys" "\<forall>x \<in> set mid. systemMatch x = None"
      "systemMatch l = None" "codeMatch l = Some (code r)" "displayMatch l = Some (display r)"
      "confidence r = confidence_of l"
    unfolding from_line_def by blast
  from ls have "ls @ ls' = before @ h # mid @ l # (after @ ls')" by simp
  with rest show ?thesis unfolding from_line_def by blast
qed

lemma from_line_parent:
  "from_line ls sys r \<Longrightarrow> from_line ls sys (r\<lparr>parentCode := a, parentDisplay := b\<rparr>)"
  by (simp add: from_line_def)

lemma open_section_extend:
  "open_section ls sys \<Longrightarrow> systemMatch l = None \<Longrightarrow> open_section (ls @ [l]) sys"
proof -
  assume "open_section ls sys" and l: "systemMatch l = None"
  then obtain before h mid where
    ls: "ls = before @ h # mid" and h: "systemMatch h = Some sys"
    and mid: "\<forall>x \<in> set mid. systemMatch x = None"
    unfolding open_section_def by blast
  from ls have "ls @ [l] = before @ h # (mid @ [l])" by simp
  moreover from mid l have "\<forall>x \<in> set (mid @ [l]). systemMatch x = None" by simp
  ultimately show ?thesis using h unfolding open_section_def by blast
qed

lemma open_section_header: "systemMatch l = Some n \<Longrightarrow> open_section (ls @ [l]) n"
proof -
  assume "systemMatch l = Some n"
  moreover have "ls @ [l] = ls @ l # []" by simp
  ultimately show ?thesis unfolding open_section_def by fastforce
qed

lemma from_line_result:
  assumes "open_section ls sys" and "systemMatch l = None"
    and "codeMatch l = Some c" and "displayMatch l = Some d"
  shows "from_line (ls @ [l]) sys
           \<lparr>system = sys, code = c, display = d, confidence = confidence_of l,
            parentCode = None, parentDisplay = None\<rparr>"
proof -
  from assms(1) obtain before h mid where
    ls: "ls = before @ h # mid" and h: "systemMatch h = Some sys"
    and mid: "\<forall>x \<in> set mid. systemMatch x = None"
    unfolding open_section_def by blast
  from ls have "ls @ [l] = before @ h # mid @ l # []" by simp
  with h mid assms(2-4) show ?thesis unfolding from_line_def by fastforce
qed

lemma parse_inv_frame:
  assumes "parse_inv ls st" and "systemMatch l = None"
    and "systems st' = systems st" and "currentSystem st' = currentSystem st"
    and "lastResult st' = lastResult st"
  shows "parse_inv (ls @ [l]) st'"
  using assms unfolding parse_inv_def
  by (auto intro: from_line_append open_section_extend)

lemma summary_step_frame:
  "systems (summary_step st l) = systems st \<and>
   currentSystem (summary_step st l) = currentSystem st \<and>
   lastResult (summary_step st l) = lastResult st"
  by (simp add: summary_step_def)

lemma parse_inv_header:
  assumes inv: "parse_inv ls st" and l: "systemMatch l = Some n"
  shows "parse_inv (ls @ [l])
           (st\<lparr>currentSystem := n, systems := AList.update n [] (systems st),
               inResults := True, lastResult := None\<rparr>)"
proof -
  have "(\<exists>h \<in> set (ls @ [l]). systemMatch h = Some sys) \<and>
        (\<forall>r \<in> set rs. from_line (ls @ [l]) sys r)"
    if "(sys, rs) \<in> set (AList.update n [] (systems st))" for sys rs
  proof -
    from set_update_cases [OF that]
    show ?thesis
    proof
      assume "(sys, rs) \<in> set (systems st)"
      with inv show ?thesis unfolding parse_inv_def by (auto intro: from_line_append)
    next
      assume "sys = n \<and> rs = []"
      with l show ?thesis by simp
    qed
  qed
  with open_section_header [OF l, of ls] show ?thesis
    unfolding parse_inv_def by simp
qed

lemma parse_inv_parent:
  assumes inv: "parse_inv ls st" and l: "systemMatch l = None" and lr: "lastResult st = Some lr"
  shows "parse_inv (ls @ [l])
           (st\<lparr>systems := AList.map_entry (currentSystem st)
                   (set_last (lr\<lparr>parentCode := Some pc, parentDisplay := Some pd\<rparr>)) (systems st),
               lastResult := Some (lr\<lparr>parentCode := Some pc, parentDisplay := Some pd\<rparr>)\<rparr>)"
proof -
  let ?lr = "lr\<lparr>parentCode := Some pc, parentDisplay := Some pd\<rparr>"
  from inv lr have cur: "from_line ls (currentSystem st) lr" unfolding parse_inv_def by simp
  then have new: "from_line (ls @ [l]) (currentSystem st) ?lr"
    by (intro from_line_parent from_line_append)
  have "(\<exists>h \<in> set (ls @ [l]). systemMatch h = Some sys) \<and>
        (\<forall>r \<in> set rs. from_line (ls @ [l]) sys r)"
    if "(sys, rs) \<in> set (AList.map_entry (currentSystem st) (set_last ?lr) (systems st))"
    for sys rs
  proof -
    from set_map_entry_cases [OF that]
    show ?thesis
    proof
      assume "(sys, rs) \<in> set (systems st)"
      with inv show ?thesis unfolding parse_inv_def by (auto intro: from_line_append)
    next
      assume "sys = currentSystem st \<and>
              (\<exists>v0. (currentSystem st, v0) \<in> set (systems st) \<and> rs = set_last ?lr v0)"
      then obtain v0 where sys: "sys = currentSystem st"
        and v0: "(currentSystem st, v0) \<in> set (systems st)" and rs: "rs = set_last ?lr v0"
        by blast
      from inv v0 have h: "\<exists>h \<in> set ls. systemMatch h = Some (currentSystem st)"
        and old: "\<forall>r \<in> set v0. from_line ls (currentSystem st) r"
        unfolding parse_inv_def by blast+
      have "set rs \<subseteq> set v0 \<union> {?lr}"
        using rs by (auto simp: set_last_def dest: in_set_butlastD)
      with old new have "\<forall>r \<in> set rs. from_line (ls @ [l]) (currentSystem st) r"
        by (auto intro: from_line_append)
      with h sys show ?thesis by auto
    qed
  qed
  moreover have "currentSystem st \<noteq> [] \<longrightarrow> open_section (ls @ [l]) (currentSystem st)"
    using inv l unfolding parse_inv_def by (auto intro: open_section_extend)
  ultimately show ?thesis using new unfolding parse_inv_def by simp
qed

lemma parse_inv_result:
  assumes inv: "parse_inv ls st" and l: "systemMatch l = None"
    and cur: "currentSystem st \<noteq> []"
    and c: "codeMatch l = Some c" and d: "displayMatch l = Some d"
  shows "parse_inv (ls @ [l])
           (st\<lparr>systems := AList.map_entry (currentSystem st)
                   (\<lambda>rs. rs @ [\<lparr>system = currentSystem st, code = c, display = d,
                                 confidence = confidence_of l,
                                 parentCode = None, parentDisplay = None\<rparr>]) (systems st),
               lastResult := Some \<lparr>system = currentSystem st, code = c, display = d,
                                    confidence = confidence_of l,
                                    parentCode = None, parentDisplay = None\<rparr>\<rparr>)"
proof -
  let ?r = "\<lparr>system = currentSystem st, code = c, display = d, confidence = confidence_of l,
             parentCode = None, parentDisplay = None\<rparr>"
  from inv cur have "open_section ls (currentSystem st)" unfolding parse_inv_def by simp
  from from_line_result [OF this l c d] have new: "from_line (ls @ [l]) (currentSystem st) ?r" .
  have "(\<exists>h \<in> set (ls @ [l]). systemMatch h = Some sys) \<and>
        (\<forall>r \<in> set rs. from_line (ls @ [l]) sys r)"
    if "(sys, rs) \<in> set (AList.map_entry (currentSystem st) (\<lambda>rs. rs @ [?r]) (systems st))"
    for sys rs
  proof -
    from set_map_entry_cases [OF that]
    show ?thesis
    proof
      assume "(sys, rs) \<in> set (systems st)"
      with inv show ?thesis unfolding parse_inv_def by (auto intro: from_line_append)
    next
      assume "sys = currentSystem st \<and>
              (\<exists>v0. (currentSystem st, v0) \<in> set (systems st) \<and> rs = v0 @ [?r])"
      then obtain v0 where sys: "sys = currentSystem st"
        and v0: "(currentSystem st, v0) \<in> set (systems st)" and rs: "rs = v0 @ [?r]"
        by blast
      from inv v0 have h: "\<exists>h \<in> set ls. systemMatch h = Some (currentSystem st)"
        and old: "\<forall>r \<in> set v0. from_line ls (currentSystem st) r"
        unfolding parse_inv_def by blast+
      from old new rs have "\<forall>r \<in> set rs. from_line (ls @ [l]) (currentSystem st) r"
        by (auto intro: from_line_append)
      with h sys show ?thesis by auto
    qed
  qed
  moreover have "open_section (ls @ [l]) (currentSystem st)"
    using inv l cur unfolding parse_inv_def by (auto intro: open_section_extend)
  ultimately show ?thesis using new unfolding parse_inv_def by simp
qed

lemma parse_inv_result_step:
  assumes inv: "parse_inv ls st" and l: "systemMatch l = None"
  shows "parse_inv (ls @ [l]) (result_step st l)"
proof (cases "currentSystem st \<noteq> [] \<and> map_of (systems st) (currentSystem st) \<noteq> None \<and>
              startsWith (trim l) (js ''-'') \<and> codeMatch l \<noteq> None \<and> displayMatch l \<noteq> None")
  case True
  then obtain c d where c: "codeMatch l = Some c" and d: "displayMatch l = Some d" by auto
  from True have cur: "currentSystem st \<noteq> []" by simp
  from parse_inv_result [OF inv l cur c d] True c d show ?thesis
    by (simp add: result_step_def Let_def)
next
  case False
  then have "result_step st l = summary_step st l"
    by (auto simp: result_step_def split: option.splits)
  with parse_inv_frame [OF inv l] summary_step_frame [of st l] show ?thesis by simp
qed

lemma parse_inv_line_step:
  assumes inv: "parse_inv ls st"
  shows "parse_inv (ls @ [l]) (line_step st l)"
proof (cases "systemMatch l")
  case (Some n)
  from parse_inv_header [OF inv Some] Some show ?thesis by (simp add: line_step_def)
next
  case None
  show ?thesis
  proof (cases "parentMatch l \<noteq> None \<and> lastResult st \<noteq> None")
    case True
    then obtain pc pd lr where p: "parentMatch l = Some (pc, pd)" and lr: "lastResult st = Some lr"
      by auto
    from parse_inv_parent [OF inv None lr] None p lr show ?thesis
      by (simp add: line_step_def Let_def)
  next
    case False
    then have "line_step st l = result_step st l"
      using None by (auto simp: line_step_def split: option.splits)
    with parse_inv_result_step [OF inv None] show ?thesis by simp
  qed
qed

lemma parse_inv_init: "parse_inv [] init_pstate"
  by (simp add: parse_inv_def init_pstate_def)

lemma parse_inv_parse_lines: "parse_inv ls (parse_lines ls)"
proof (induction ls rule: rev_induct)
  case Nil
  then show ?case by (simp add: parse_lines_def parse_inv_init)
next
  case (snoc l ls)
  from parse_inv_line_step [OF snoc.IH, of l] show ?case by (simp add: parse_lines_def)
qed

lemma last_is_current_frame:
  assumes "last_is_current st" and "systems st' = systems st"
    and "currentSystem st' = currentSystem st" and "lastResult st' = lastResult st"
  shows "last_is_current st'"
  using assms by (simp add: last_is_current_def)

lemma last_is_current_result_step:
  assumes "last_is_current st"
  shows "last_is_current (result_step st l)"
proof (cases "currentSystem st \<noteq> [] \<and> map_of (systems st) (currentSystem st) \<noteq> None \<and>
              startsWith (trim l) (js ''-'') \<and> codeMatch l \<noteq> None \<and> displayMatch l \<noteq> None")
  case True
  then obtain c d rs where c: "codeMatch l = Some c" and d: "displayMatch l = Some d"
    and rs: "map_of (systems st) (currentSystem st) = Some rs" by auto
  with True show ?thesis
    by (simp add: result_step_def Let_def last_is_current_def AList.map_of_map_entry)
next
  case False
  then have "result_step st l = summary_step st l"
    by (auto simp: result_step_def split: option.splits)
  with last_is_current_frame [OF assms] summary_step_frame [of st l] show ?thesis by simp
qed

lemma last_is_current_line_step:
  assumes "last_is_current st"
  shows "last_is_current (line_step st l)"
proof (cases "systemMatch l")
  case (Some n)
  then show ?thesis by (simp add: line_step_def last_is_current_def)
next
  case None
  show ?thesis
  proof (cases "parentMatch l \<noteq> None \<and> lastResult st \<noteq> None")
    case True
    then obtain pc pd lr where p: "parentMatch l = Some (pc, pd)" and lr: "lastResult st = Some lr"
      by auto
    from assms lr obtain rs where "map_of (systems st) (currentSystem st) = Some rs" "rs \<noteq> []"
      unfolding last_is_current_def by blast
    with None p lr show ?thesis
      by (simp add: line_step_def Let_def last_is_current_def AList.map_of_map_entry set_last_def)
  next
    case False
    then have "line_step st l = result_step st l"
      using None by (auto simp: line_step_def split: option.splits)
    with last_is_current_result_step [OF assms] show ?thesis by simp
  qed
qed

lemma last_is_current_parse_lines: "last_is_current (parse_lines ls)"
proof (induction ls rule: rev_induct)
  case Nil
  then show ?case by (simp add: parse_lines_def last_is_current_def init_pstate_def)
next
  case (snoc l ls)
  from last_is_current_line_step [OF snoc.IH, of l] show ?case by (simp add: parse_lines_def)
qed


section \<open>Properties of parseCodeResults and hasCodeResults\<close>

lemmas parse_eval =
  parseCodeResults_def parse_lines_def line_step_def result_step_def summary_step_def
  systemMatch_def parentMatch_def codeMatch_def displayMatch_def pctMatch_def confidence_of_def
  rx_anchored_def header_re_def parent_re_def code_re_def display_re_def pct_re_def lits_def
  init_pstate_def trim_def startsWith_def parseInt_def set_last_def js_def
  is_space_def is_digit_def is_line_terminator_def Let_def

lemma results_from_line:
  assumes "(sys, rs) \<in> set (snd (parseCodeResults s))" and "r \<in> set rs"
  shows "from_line (split_nl s) sys r"
  using assms parse_inv_parse_lines [of "split_nl s"]
  unfolding parse_inv_def parseCodeResults_def by (auto simp: Let_def)

lemma systems_from_header:
  assumes "(sys, rs) \<in> set (snd (parseCodeResults s))"
  shows "\<exists>h \<in> set (split_nl s). systemMatch h = Some sys"
  using assms parse_inv_parse_lines [of "split_nl s"]
  unfolding parse_inv_def parseCodeResults_def by (auto simp: Let_def)

text \<open>
  Claim C1. No fabricated codes: for every input string, every result that
  \<open>parseCodeResults\<close> lists under a system carries that system, and its code occurs
  verbatim between two backticks in the input, on a line of the section opened by a
  \<open>### <system> (N results)\<close> header line of that system (no other header line lies
  between that header and the line of the code).
\<close>

theorem parseCodeResults_no_fabricated_codes:
  assumes "(sys, rs) \<in> set (snd (parseCodeResults s))" and "r \<in> set rs"
  shows "system r = sys \<and>
         (\<exists>pre post. s = pre @ [96] @ code r @ [96] @ post) \<and>
         (\<exists>before h mid l after.
            split_nl s = before @ h # mid @ l # after \<and> systemMatch h = Some sys \<and>
            (\<forall>x \<in> set mid. systemMatch x = None) \<and> systemMatch l = None \<and>
            (\<exists>p q. l = p @ [96] @ code r @ [96] @ q))"
proof -
  from results_from_line [OF assms] obtain before h mid l after where
    sys: "system r = sys" and ls: "split_nl s = before @ h # mid @ l # after"
    and h: "systemMatch h = Some sys" and mid: "\<forall>x \<in> set mid. systemMatch x = None"
    and l: "systemMatch l = None" and c: "codeMatch l = Some (code r)"
    unfolding from_line_def by blast
  from codeMatch_sound [OF c] obtain p q where pq: "l = p @ [96] @ code r @ [96] @ q" by blast
  from ls have "l \<in> set (split_nl s)" by simp
  from split_nl_line [OF this] obtain pre post where "s = pre @ l @ post" by blast
  with pq have "s = (pre @ p) @ [96] @ code r @ [96] @ (q @ post)" by simp
  then have "\<exists>pre post. s = pre @ [96] @ code r @ [96] @ post" by blast
  with sys ls h mid l pq show ?thesis by blast
qed

text \<open>A LOINC section with one result line.\<close>

theorem parseCodeResults_no_fabricated_codes_witness:
  "(js ''LOINC'', [\<lparr>system = js ''LOINC'', code = js ''4548-4'', display = js ''Hemoglobin A1c'',
       confidence = 87 / 100, parentCode = None, parentDisplay = None\<rparr>])
     \<in> set (snd (parseCodeResults (js ''### LOINC (1 results)\<newline>- `4548-4` **Hemoglobin A1c** 87%''))) \<and>
   (\<exists>pre post. js ''### LOINC (1 results)\<newline>- `4548-4` **Hemoglobin A1c** 87%'' =
      pre @ [96] @ js ''4548-4'' @ [96] @ post)"
proof -
  let ?s = "js ''### LOINC (1 results)\<newline>- `4548-4` **Hemoglobin A1c** 87%''"
  let ?r = "\<lparr>system = js ''LOINC'', code = js ''4548-4'', display = js ''Hemoglobin A1c'',
       confidence = 87 / 100, parentCode = None, parentDisplay = None\<rparr>"
  have a: "(js ''LOINC'', [?r]) \<in> set (snd (parseCodeResults ?s))"
    by (simp add: parse_eval)
  have b: "?r \<in> set [?r]" by simp
  from a parseCodeResults_no_fabricated_codes [OF a b] show ?thesis by simp
qed

text \<open>
  Claim C2, as amended. For every input string and every result of \<open>parseCodeResults\<close>,
  the confidence is not negative; it is \<open>P / 100\<close> for the first percentage \<open>P%\<close> of the
  result's line and 0.5 for a line without a percentage, so it is at most 1 exactly when
  the line carries no percentage above 100.
\<close>

theorem parseCodeResults_confidence:
  assumes "(sys, rs) \<in> set (snd (parseCodeResults s))" and "r \<in> set rs"
  shows "0 \<le> confidence r \<and>
         (\<exists>l \<in> set (split_nl s).
            codeMatch l = Some (code r) \<and>
            confidence r = (case pctMatch l of Some p \<Rightarrow> real (parseInt p) / 100 | None \<Rightarrow> 1 / 2) \<and>
            (confidence r \<le> 1 \<longleftrightarrow> (\<forall>p. pctMatch l = Some p \<longrightarrow> parseInt p \<le> 100)))"
proof -
  from results_from_line [OF assms] obtain before h mid l after where
    ls: "split_nl s = before @ h # mid @ l # after"
    and c: "codeMatch l = Some (code r)" and conf: "confidence r = confidence_of l"
    unfolding from_line_def by blast
  from ls have l: "l \<in> set (split_nl s)" by simp
  have nonneg: "0 \<le> confidence_of l"
    by (simp add: confidence_of_def split: option.splits)
  have le: "confidence_of l \<le> 1 \<longleftrightarrow> (\<forall>p. pctMatch l = Some p \<longrightarrow> parseInt p \<le> 100)"
    by (simp add: confidence_of_def split: option.splits)
  from l c conf nonneg le show ?thesis
    by (auto simp: confidence_of_def)
qed

text \<open>
  Claim C2 as stated fails on a result line with a percentage above 100: \<open>150%\<close> gives
  the confidence 1.5.
\<close>

theorem parseCodeResults_confidence_counterexample:
  "snd (parseCodeResults (js ''### LOINC (1 results)\<newline>- `4548-4` **Hemoglobin A1c** 150%'')) =
     [(js ''LOINC'', [\<lparr>system = js ''LOINC'', code = js ''4548-4'', display = js ''Hemoglobin A1c'',
       confidence = 3 / 2, parentCode = None, parentDisplay = None\<rparr>])] \<and>
   \<not> (3 / 2 \<le> (1 :: real))"
  by (simp add: parse_eval)

text \<open>A result line with \<open>87%\<close>.\<close>

theorem parseCodeResults_confidence_witness:
  "(js ''LOINC'', [\<lparr>system = js ''LOINC'', code = js ''4548-4'', display = js ''Hemoglobin A1c'',
       confidence = 87 / 100, parentCode = None, parentDisplay = None\<rparr>])
     \<in> set (snd (parseCodeResults (js ''### LOINC (1 results)\<newline>- `4548-4` **Hemoglobin A1c** 87%''))) \<and>
   (0 :: real) \<le> 87 / 100"
proof -
  let ?s = "js ''### LOINC (1 results)\<newline>- `4548-4` **Hemoglobin A1c** 87%''"
  let ?r = "\<lparr>system = js ''LOINC'', code = js ''4548-4'', display = js ''Hemoglobin A1c'',
       confidence = 87 / 100, parentCode = None, parentDisplay = None\<rparr>"
  have a: "(js ''LOINC'', [?r]) \<in> set (snd (parseCodeResults ?s))"
    by (simp add: parse_eval)
  have b: "?r \<in> set [?r]" by simp
  from a parseCodeResults_confidence [OF a b] show ?thesis by simp
qed

lemma header_re_no_Eol: "Eol \<notin> set header_re"
  by (simp add: header_re_def lits_def)

text \<open>
  Claim C10, as amended. For every string, if \<open>parseCodeResults\<close> creates at least one
  system entry then \<open>hasCodeResults\<close> returns true.
\<close>

theorem parsed_systems_imply_hasCodeResults:
  assumes "snd (parseCodeResults s) \<noteq> []"
  shows "hasCodeResults s"
proof -
  from assms obtain sys rs where "(sys, rs) \<in> set (snd (parseCodeResults s))"
    by (cases "snd (parseCodeResults s)") auto
  from systems_from_header [OF this] obtain h where
    h: "h \<in> set (split_nl s)" and m: "systemMatch h = Some sys" by blast
  from m have "rx header_re h [] [] \<noteq> None"
    by (auto simp: systemMatch_def rx_anchored_def split: option.splits)
  from split_nl_line [OF h] obtain pre post where s: "s = pre @ h @ post" by blast
  from rx_extend [OF \<open>rx header_re h [] [] \<noteq> None\<close> header_re_no_Eol]
  have "rx header_re (h @ post) [] [] \<noteq> None" .
  from rx_search_complete [OF this] s show ?thesis
    by (simp add: hasCodeResults_def)
qed

text \<open>
  Claim C10 as stated fails in the other direction: the unanchored pattern of
  \<open>hasCodeResults\<close> finds a header inside \<open>#### LOINC (1 results)\<close>, at index 1, while
  the anchored pattern of \<open>parseCodeResults\<close> does not match that line.
\<close>

theorem hasCodeResults_counterexample:
  "hasCodeResults (js ''#### LOINC (1 results)'') \<and>
   snd (parseCodeResults (js ''#### LOINC (1 results)'')) = []"
  by (simp add: hasCodeResults_def parse_eval)

text \<open>A header line alone.\<close>

theorem parsed_systems_imply_hasCodeResults_witness:
  "snd (parseCodeResults (js ''### LOINC (1 results)'')) \<noteq> [] \<and>
   hasCodeResults (js ''### LOINC (1 results)'')"
proof -
  have a: "snd (parseCodeResults (js ''### LOINC (1 results)'')) \<noteq> []"
    by (simp add: parse_eval)
  from a parsed_systems_imply_hasCodeResults [OF a] show ?thesis by simp
qed

end
